theory Spec2Isabelle
  imports Main "HOL-Library.Word"
begin

section \<open>The ingress client of go-loggregator (ingress_client.go)\<close>

text \<open>
  The client builds envelopes (EmitLog, EmitGauge, EmitCounter), hands them to the
  goroutine startSender through the buffered channel \<open>envelopes\<close>, and that goroutine
  batches them and sends the batches on a gRPC stream. The embedding follows the source
  function by function. What the source takes from outside is made explicit:
  \<^item> a Go channel is a record of its buffer, its capacity and whether it is closed; a send
    on it is accepted, blocks, or panics;
  \<^item> the timer \<open>t\<close> of startSender is a record of its deadline and of whether its channel
    \<open>t.C\<close> holds an unreceived value (the one-slot channel of time.Timer);
  \<^item> the transport (BatchSender, Send, CloseSend of the stream) answers as the schedule
    says: every iteration of the loop comes with the answers the transport gives if it
    is called in that iteration;
  \<^item> the calls made on the transport and the lines given to the logger are kept as traces.
\<close>

subsection \<open>Go channels\<close>

record 'a chan =
  buf :: "'a list"
  cap :: nat
  closed :: bool

datatype 'a sent = Sent 'a | Blocks | Panics

text \<open>\<open>ch <- v\<close>: panics on a closed channel, blocks while the buffer is full.\<close>

definition chan_send :: "'a chan \<Rightarrow> 'a \<Rightarrow> 'a chan sent" where
  "chan_send ch v =
     (if closed ch then Panics
      else if length (buf ch) < cap ch then Sent (ch\<lparr>buf := buf ch @ [v]\<rparr>)
      else Blocks)"

text \<open>
  \<open><-ch\<close> on a channel of pointers: the oldest buffered value; the zero value (nil,
  here \<open>None\<close>) once the channel is closed and drained; \<open>None\<close> at the outside when the
  receive is not ready.
\<close>

definition chan_recv :: "'a chan \<Rightarrow> ('a option \<times> 'a chan) option" where
  "chan_recv ch =
     (case buf ch of
        v # vs \<Rightarrow> Some (Some v, ch\<lparr>buf := vs\<rparr>)
      | [] \<Rightarrow> if closed ch then Some (None, ch) else None)"

text \<open>\<open>close(ch)\<close>: panics (\<open>None\<close>) on a channel that is closed already.\<close>

definition chan_close :: "'a chan \<Rightarrow> 'a chan option" where
  "chan_close ch = (if closed ch then None else Some (ch\<lparr>closed := True\<rparr>))"

subsection \<open>The timer\<close>

text \<open>
  Time is a count of nanoseconds, a duration too. A timer that is armed has a deadline;
  when the deadline is reached the runtime disarms it and puts a value into \<open>t.C\<close>.
\<close>

record timer =
  deadline :: "int option"
  pending :: bool

definition NewTimer :: "int \<Rightarrow> int \<Rightarrow> timer" where
  "NewTimer now d = \<lparr>deadline = Some (now + d), pending = False\<rparr>"

definition timer_elapse :: "int \<Rightarrow> timer \<Rightarrow> timer" where
  "timer_elapse now tm =
     (case deadline tm of
        None \<Rightarrow> tm
      | Some d \<Rightarrow> if d \<le> now then \<lparr>deadline = None, pending = True\<rparr> else tm)"

text \<open>\<open>t.Stop()\<close>: true when the call stops an armed timer, false when it has expired.\<close>

definition timer_Stop :: "timer \<Rightarrow> bool \<times> timer" where
  "timer_Stop tm = (deadline tm \<noteq> None, tm\<lparr>deadline := None\<rparr>)"

text \<open>\<open><-t.C\<close>: takes the value out of the channel; \<open>None\<close> when there is none to take.\<close>

definition timer_recv :: "timer \<Rightarrow> timer option" where
  "timer_recv tm = (if pending tm then Some (tm\<lparr>pending := False\<rparr>) else None)"

definition timer_Reset :: "int \<Rightarrow> int \<Rightarrow> timer \<Rightarrow> timer" where
  "timer_Reset now d tm = tm\<lparr>deadline := Some (now + d)\<rparr>"

subsection \<open>The client and its sender goroutine\<close>

type_synonym error = string
type_synonym handle = nat
type_synonym tagmap = "string \<rightharpoonup> string"

datatype logger = Discard | Sink nat

text \<open>The calls made on the transport, with what they were given and what they answered.\<close>

datatype 'e wire_op =
    BatchSender "error + handle"
  | Send handle "'e list" "error option"
  | StreamCloseSend handle "error option"

text \<open>
  The struct IngressClient (\<open>sender\<close> is nil when \<open>None\<close>; \<open>batchMaxSize\<close> is a uint, 64
  bits wide here), then the locals \<open>t\<close> and \<open>batch\<close> of startSender, then the traces: the
  transport calls, the errors printed through \<open>logger\<close>, and the envelopes that a send on
  \<open>envelopes\<close> has accepted.
\<close>

record 'e IngressClient =
  sender :: "handle option"
  envelopes :: "'e chan"
  tags :: tagmap
  batchMaxSize :: "64 word"
  batchFlushInterval :: int
  addr :: string
  logger :: logger
  tmr :: timer
  batch :: "'e list"
  wire :: "'e wire_op list"
  logged :: "(logger \<times> error) list"
  accepted :: "'e list"

text \<open>
  What the transport answers in one iteration, if it is asked. BatchSender answers with
  a stream, or with an error and no stream, as the generated gRPC client does; a logger
  is a Logger value, never nil.
\<close>

record answers =
  on_BatchSender :: "error + handle"
  on_Send :: "error option"
  on_CloseSend :: "error option"

definition emit :: "'e IngressClient \<Rightarrow> 'e list \<Rightarrow> bool \<Rightarrow> answers \<Rightarrow> 'e IngressClient \<times> error option" where
  "emit c b cls r =
     (case (case sender c of
              None \<Rightarrow>
                (case on_BatchSender r of
                   Inl err \<Rightarrow> Inl (c\<lparr>wire := wire c @ [BatchSender (Inl err)]\<rparr>, err)
                 | Inr h \<Rightarrow> Inr (c\<lparr>sender := Some h, wire := wire c @ [BatchSender (Inr h)]\<rparr>, h))
            | Some h \<Rightarrow> Inr (c, h)) of
        Inl (c1, err) \<Rightarrow> (c1, Some err)
      | Inr (c1, h) \<Rightarrow>
          (case on_Send r of
             Some err \<Rightarrow> (c1\<lparr>sender := None, wire := wire c1 @ [Send h b (Some err)]\<rparr>, Some err)
           | None \<Rightarrow>
               if cls
               then (c1\<lparr>wire := wire c1 @ [Send h b None, StreamCloseSend h (on_CloseSend r)]\<rparr>,
                     on_CloseSend r)
               else (c1\<lparr>wire := wire c1 @ [Send h b None]\<rparr>, None)))"

definition flush :: "'e IngressClient \<Rightarrow> 'e list \<Rightarrow> bool \<Rightarrow> answers \<Rightarrow> 'e IngressClient \<times> error option" where
  "flush c b cls r =
     (case emit c b cls r of
        (c1, None) \<Rightarrow> (c1, None)
      | (c1, Some err) \<Rightarrow> (c1\<lparr>logged := logged c1 @ [(logger c1, err)]\<rparr>, Some err))"

text \<open>
  One iteration of the loop of startSender. The schedule says which case of the select
  is taken, at what time, and what the transport answers. The whole iteration is placed
  at that one time: the timer has fired before it if its deadline has been reached by
  then, and a reset counts from it. \<open>len(batch) >= int(c.batchMaxSize)\<close> compares ints:
  the conversion of the uint is its signed reading. \<open>NotReady\<close>: the case chosen
  cannot be taken in this state. \<open>Return\<close>: the value sent on \<open>closeErrors\<close>, after which
  the goroutine returns. \<open>Stuck\<close>: the receive \<open><-t.C\<close> after \<open>t.Stop()\<close> finds no value, and
  never will.
\<close>

datatype pick = FromEnvelopes | FromTimer

record iteration =
  pick :: pick
  now :: int
  answer :: answers

datatype 'e outcome = Continue "'e IngressClient" | Return "'e IngressClient" "error option"
  | NotReady | Stuck

definition startSender_step :: "'e IngressClient \<Rightarrow> iteration \<Rightarrow> 'e outcome" where
  "startSender_step c0 i =
     (let c = c0\<lparr>tmr := timer_elapse (now i) (tmr c0)\<rparr> in
      case pick i of
        FromEnvelopes \<Rightarrow>
          (case chan_recv (envelopes c) of
             None \<Rightarrow> NotReady
           | Some (None, ch) \<Rightarrow>
               (case flush (c\<lparr>envelopes := ch\<rparr>) (batch c) True (answer i) of
                  (c1, err) \<Rightarrow> Return c1 err)
           | Some (Some env, ch) \<Rightarrow>
               (let c1 = c\<lparr>envelopes := ch, batch := batch c @ [env]\<rparr> in
                if sint (batchMaxSize c1) \<le> int (length (batch c1)) then
                  (let c2 = (fst (flush c1 (batch c1) False (answer i)))\<lparr>batch := []\<rparr> in
                   case timer_Stop (tmr c2) of
                     (True, tm) \<Rightarrow>
                       Continue (c2\<lparr>tmr := timer_Reset (now i) (batchFlushInterval c2) tm\<rparr>)
                   | (False, tm) \<Rightarrow>
                       (case timer_recv tm of
                          None \<Rightarrow> Stuck
                        | Some tm1 \<Rightarrow>
                            Continue (c2\<lparr>tmr := timer_Reset (now i) (batchFlushInterval c2) tm1\<rparr>)))
                else Continue c1))
      | FromTimer \<Rightarrow>
          (case timer_recv (tmr c) of
             None \<Rightarrow> NotReady
           | Some tm \<Rightarrow>
               (let c1 = c\<lparr>tmr := tm\<rparr>;
                    c2 = (if 0 < length (batch c1)
                          then (fst (flush c1 (batch c1) False (answer i)))\<lparr>batch := []\<rparr>
                          else c1)
                in Continue (c2\<lparr>tmr := timer_Reset (now i) (batchFlushInterval c2) (tmr c2)\<rparr>))))"

text \<open>
  The client in use: producers send envelopes on the channel (the last statement of
  EmitLog, EmitGauge and EmitCounter), someone closes it (the first statement of
  CloseSend), the goroutine iterates. A send on a closed channel and a second close
  panic; a send on a full channel leaves the producer waiting, and changes nothing; an
  iteration whose case is not ready is no iteration.
\<close>

datatype 'e action = Submit 'e | Close | Loop iteration

datatype 'e run = Running "'e IngressClient" | Finished "'e IngressClient" "error option"
  | Panicked | Deadlocked

fun exec :: "'e IngressClient \<Rightarrow> 'e action list \<Rightarrow> 'e run" where
  "exec c [] = Running c"
| "exec c (Submit e # as) =
     (case chan_send (envelopes c) e of
        Sent ch \<Rightarrow> exec (c\<lparr>envelopes := ch, accepted := accepted c @ [e]\<rparr>) as
      | Blocks \<Rightarrow> exec c as
      | Panics \<Rightarrow> Panicked)"
| "exec c (Close # as) =
     (case chan_close (envelopes c) of
        None \<Rightarrow> Panicked
      | Some ch \<Rightarrow> exec (c\<lparr>envelopes := ch\<rparr>) as)"
| "exec c (Loop i # as) =
     (case startSender_step c i of
        Continue c1 \<Rightarrow> exec c1 as
      | Return c1 err \<Rightarrow> Finished c1 err
      | NotReady \<Rightarrow> exec c as
      | Stuck \<Rightarrow> Deadlocked)"

text \<open>
  CloseSend closes the channel and waits for the value on \<open>closeErrors\<close>; \<open>as\<close> is what
  happens while it waits. \<open>Finished c err\<close>: it returns \<open>err\<close>. \<open>Running c\<close>: it still
  waits.
\<close>

definition CloseSend :: "'e IngressClient \<Rightarrow> 'e action list \<Rightarrow> 'e run" where
  "CloseSend c as = exec c (Close # as)"

text \<open>The batches that were sent with success, in the order of the calls.\<close>

fun sent_batches :: "'e wire_op list \<Rightarrow> 'e list list" where
  "sent_batches [] = []"
| "sent_batches (Send h b None # ws) = b # sent_batches ws"
| "sent_batches (w # ws) = sent_batches ws"

subsection \<open>Envelopes and the options of the Emit calls\<close>

typedecl float64

datatype log_type = Log_OUT | Log_ERR

datatype message =
    Log string log_type
  | Gauge "string \<rightharpoonup> float64 \<times> string"
  | Counter string "64 word"

record envelope =
  Timestamp :: int
  SourceId :: string
  InstanceId :: string
  Tags :: tagmap
  Message :: message

text \<open>
  The options are closures over a proto.Message; the Emit calls of this file hand them a
  *loggregator_v2.Envelope, so their first case is the one modelled. The getters GetLog,
  GetGauge and GetCounter return nil on an envelope of another kind, and the assignment
  through nil panics: \<open>None\<close>.
\<close>

datatype emit_option =
    WithAppInfo string string string
  | WithStdout
  | WithGaugeAppInfo string
  | WithGaugeValue string float64 string
  | WithDelta "64 word"
  | WithEnvelopeTag string string
  | WithEnvelopeTags tagmap

fun apply_option :: "emit_option \<Rightarrow> envelope \<Rightarrow> envelope option" where
  "apply_option (WithAppInfo appID sourceType sourceInstance) e =
     Some (e\<lparr>SourceId := appID, InstanceId := sourceInstance,
             Tags := (Tags e)(''source_type'' \<mapsto> sourceType)\<rparr>)"
| "apply_option WithStdout e =
     (case Message e of Log p ty \<Rightarrow> Some (e\<lparr>Message := Log p Log_OUT\<rparr>) | _ \<Rightarrow> None)"
| "apply_option (WithGaugeAppInfo appID) e = Some (e\<lparr>SourceId := appID\<rparr>)"
| "apply_option (WithGaugeValue name v unit) e =
     (case Message e of
        Gauge ms \<Rightarrow> Some (e\<lparr>Message := Gauge (ms(name \<mapsto> (v, unit)))\<rparr>)
      | _ \<Rightarrow> None)"
| "apply_option (WithDelta d) e =
     (case Message e of Counter n old \<Rightarrow> Some (e\<lparr>Message := Counter n d\<rparr>) | _ \<Rightarrow> None)"
| "apply_option (WithEnvelopeTag name v) e = Some (e\<lparr>Tags := (Tags e)(name \<mapsto> v)\<rparr>)"
| "apply_option (WithEnvelopeTags tgs) e = Some (e\<lparr>Tags := Tags e ++ tgs\<rparr>)"

text \<open>\<open>for _, o := range opts { o(e) }\<close>: in order, a panic ends it.\<close>

fun apply_options :: "emit_option list \<Rightarrow> envelope \<Rightarrow> envelope option" where
  "apply_options [] e = Some e"
| "apply_options (o1 # os) e =
     (case apply_option o1 e of None \<Rightarrow> None | Some e1 \<Rightarrow> apply_options os e1)"

text \<open>
  The envelope that each Emit call builds before it sends it: the fresh envelope, the
  client's tags copied into its empty tag map, then the options. The time of the call is
  an argument.
\<close>

definition log_envelope :: "'e IngressClient \<Rightarrow> int \<Rightarrow> string \<Rightarrow> emit_option list \<Rightarrow> envelope option" where
  "log_envelope c ts msg opts =
     apply_options opts
       \<lparr>Timestamp = ts, SourceId = [], InstanceId = [], Tags = Map.empty ++ tags c,
        Message = Log msg Log_ERR\<rparr>"

definition gauge_envelope :: "'e IngressClient \<Rightarrow> int \<Rightarrow> emit_option list \<Rightarrow> envelope option" where
  "gauge_envelope c ts opts =
     apply_options opts
       \<lparr>Timestamp = ts, SourceId = [], InstanceId = [], Tags = Map.empty ++ tags c,
        Message = Gauge Map.empty\<rparr>"

definition counter_envelope :: "'e IngressClient \<Rightarrow> int \<Rightarrow> string \<Rightarrow> emit_option list \<Rightarrow> envelope option" where
  "counter_envelope c ts name opts =
     apply_options opts
       \<lparr>Timestamp = ts, SourceId = [], InstanceId = [], Tags = Map.empty ++ tags c,
        Message = Counter name 1\<rparr>"

text \<open>\<open>c.envelopes <- e\<close>, the last statement of the three calls.\<close>

definition submit :: "envelope IngressClient \<Rightarrow> envelope option \<Rightarrow> envelope IngressClient sent" where
  "submit c built =
     (case built of
        None \<Rightarrow> Panics
      | Some e \<Rightarrow>
          (case chan_send (envelopes c) e of
             Sent ch \<Rightarrow> Sent (c\<lparr>envelopes := ch, accepted := accepted c @ [e]\<rparr>)
           | Blocks \<Rightarrow> Blocks
           | Panics \<Rightarrow> Panics))"

definition EmitLog :: "envelope IngressClient \<Rightarrow> int \<Rightarrow> string \<Rightarrow> emit_option list \<Rightarrow> envelope IngressClient sent" where
  "EmitLog c ts msg opts = submit c (log_envelope c ts msg opts)"

definition EmitGauge :: "envelope IngressClient \<Rightarrow> int \<Rightarrow> emit_option list \<Rightarrow> envelope IngressClient sent" where
  "EmitGauge c ts opts = submit c (gauge_envelope c ts opts)"

definition EmitCounter :: "envelope IngressClient \<Rightarrow> int \<Rightarrow> string \<Rightarrow> emit_option list \<Rightarrow> envelope IngressClient sent" where
  "EmitCounter c ts name opts = submit c (counter_envelope c ts name opts)"

subsection \<open>The constructor\<close>

datatype IngressOption =
    WithTag string string
  | WithBatchMaxSize "64 word"
  | WithBatchFlushInterval int
  | WithAddr string
  | WithLogger logger

fun apply_IngressOption :: "'e IngressClient \<Rightarrow> IngressOption \<Rightarrow> 'e IngressClient" where
  "apply_IngressOption c (WithTag name v) = c\<lparr>tags := (tags c)(name \<mapsto> v)\<rparr>"
| "apply_IngressOption c (WithBatchMaxSize maxSize) = c\<lparr>batchMaxSize := maxSize\<rparr>"
| "apply_IngressOption c (WithBatchFlushInterval d) = c\<lparr>batchFlushInterval := d\<rparr>"
| "apply_IngressOption c (WithAddr a) = c\<lparr>addr := a\<rparr>"
| "apply_IngressOption c (WithLogger l) = c\<lparr>logger := l\<rparr>"

text \<open>
  The struct literal of NewIngressClient; time.Second is \<open>10^9\<close> nanoseconds. The timer is
  made when the goroutine starts, and the traces are empty.
\<close>

definition defaults :: "'e IngressClient" where
  "defaults =
     \<lparr>sender = None,
      envelopes = \<lparr>buf = [], cap = 100, closed = False\<rparr>,
      tags = Map.empty,
      batchMaxSize = 100,
      batchFlushInterval = 1000000000,
      addr = ''localhost:3458'',
      logger = Discard,
      tmr = \<lparr>deadline = None, pending = False\<rparr>,
      batch = [], wire = [], logged = [], accepted = []\<rparr>"

text \<open>
  \<open>dial\<close> is the error of grpc.Dial, \<open>start\<close> the time at which the goroutine makes its
  timer.
\<close>

definition NewIngressClient :: "int \<Rightarrow> error option \<Rightarrow> IngressOption list \<Rightarrow> error + 'e IngressClient" where
  "NewIngressClient start dial opts =
     (let c = foldl apply_IngressOption defaults opts in
      case dial of
        Some err \<Rightarrow> Inl err
      | None \<Rightarrow> Inr (c\<lparr>tmr := NewTimer start (batchFlushInterval c)\<rparr>))"

subsection \<open>Notions used to state the properties\<close>

text \<open>The transport answers without an error, whatever it is asked.\<close>

definition ok_answers :: "answers \<Rightarrow> bool" where
  "ok_answers r =
     ((case on_BatchSender r of Inl err \<Rightarrow> False | Inr h \<Rightarrow> True)
      \<and> on_Send r = None \<and> on_CloseSend r = None)"

fun failure_free :: "'e action list \<Rightarrow> bool" where
  "failure_free [] = True"
| "failure_free (Loop i # as) = (ok_answers (answer i) \<and> failure_free as)"
| "failure_free (a # as) = failure_free as"

text \<open>The errors that the transport has answered, in the order of the calls.\<close>

fun failures :: "'e wire_op list \<Rightarrow> error list" where
  "failures [] = []"
| "failures (BatchSender (Inl err) # ws) = err # failures ws"
| "failures (Send h b (Some err) # ws) = err # failures ws"
| "failures (StreamCloseSend h (Some err) # ws) = err # failures ws"
| "failures (w # ws) = failures ws"

text \<open>A timer is either armed or has an unreceived value in its channel.\<close>

definition timer_ok :: "timer \<Rightarrow> bool" where
  "timer_ok tm = (pending tm = (deadline tm = None))"

text \<open>
  Nothing is lost and nothing is doubled: what was sent, then what is batched, then what
  waits in the channel, is what the channel accepted.
\<close>

definition conserved :: "'e IngressClient \<Rightarrow> bool" where
  "conserved c = (concat (sent_batches (wire c)) @ batch c @ buf (envelopes c) = accepted c)"

text \<open>Every error that the transport answered has been printed, through the client's logger.\<close>

definition reported :: "'e IngressClient \<Rightarrow> bool" where
  "reported c = (logged c = map (Pair (logger c)) (failures (wire c)))"

text \<open>For the examples: the transport answers with the stream \<open>h\<close> and no error.\<close>

definition fine :: "handle \<Rightarrow> answers" where
  "fine h = \<lparr>on_BatchSender = Inr h, on_Send = None, on_CloseSend = None\<rparr>"

text \<open>The times of the iterations of a schedule; a schedule without a receive from the timer.\<close>

fun times :: "'e action list \<Rightarrow> int list" where
  "times [] = []"
| "times (Loop i # as) = now i # times as"
| "times (a # as) = times as"

fun no_timer :: "'e action list \<Rightarrow> bool" where
  "no_timer [] = True"
| "no_timer (Loop i # as) = (pick i = FromEnvelopes \<and> no_timer as)"
| "no_timer (a # as) = no_timer as"

text \<open>
  The timer cannot deliver before time \<open>b\<close>: it is armed for \<open>b\<close> or later with an empty
  channel, or it has fired and \<open>b\<close> has passed at the time \<open>t\<close> reached so far.
\<close>

definition fires_from :: "int \<Rightarrow> int \<Rightarrow> timer \<Rightarrow> bool" where
  "fires_from b t tm =
     (case deadline tm of Some d \<Rightarrow> \<not> pending tm \<and> b \<le> d | None \<Rightarrow> pending tm \<and> b \<le> t)"

text \<open>How many Send calls, and how many BatchSender calls, a trace holds.\<close>

fun sends :: "'e wire_op list \<Rightarrow> nat" where
  "sends [] = 0"
| "sends (Send h b r # ws) = Suc (sends ws)"
| "sends (w # ws) = sends ws"

fun establishments :: "'e wire_op list \<Rightarrow> nat" where
  "establishments [] = 0"
| "establishments (BatchSender r # ws) = Suc (establishments ws)"
| "establishments (w # ws) = establishments ws"





text \<open>
  For the examples: the client that NewIngressClient returns when Dial succeeds and the
  goroutine starts at time 0; the transport calls of an execution, and what CloseSend
  has returned in it.
\<close>

definition new_client :: "IngressOption list \<Rightarrow> 'e IngressClient" where
  "new_client opts =
     (let c = foldl apply_IngressOption defaults opts
      in c\<lparr>tmr := NewTimer 0 (batchFlushInterval c)\<rparr>)"

fun calls_of :: "'e run \<Rightarrow> 'e wire_op list option" where
  "calls_of (Running c) = Some (wire c)"
| "calls_of (Finished c err) = Some (wire c)"
| "calls_of Panicked = None"
| "calls_of Deadlocked = None"


text \<open>
  The tags of the per-call options, as the specification words them: each option carries
  some tags, and the tags of a call are those of its options, a later option winning over
  an earlier one on the same key.
\<close>

fun option_tags :: "emit_option \<Rightarrow> tagmap" where
  "option_tags (WithAppInfo appID sourceType sourceInstance) = [''source_type'' \<mapsto> sourceType]"
| "option_tags (WithEnvelopeTag name v) = [name \<mapsto> v]"
| "option_tags (WithEnvelopeTags tgs) = tgs"
| "option_tags opt = Map.empty"

definition per_call_tags :: "emit_option list \<Rightarrow> tagmap" where
  "per_call_tags opts = foldl (\<lambda>m opt. m ++ option_tags opt) Map.empty opts"

text \<open>For the examples: an envelope.\<close>

definition sample :: envelope where
  "sample = \<lparr>Timestamp = 0, SourceId = [], InstanceId = [], Tags = Map.empty,
             Message = Log ''x'' Log_ERR\<rparr>"

section \<open>Properties\<close>

subsection \<open>Traces\<close>

lemma sent_batches_append: "sent_batches (xs @ ys) = sent_batches xs @ sent_batches ys"
  by (induction xs rule: sent_batches.induct) simp_all

lemma failures_append: "failures (xs @ ys) = failures xs @ failures ys"
  by (induction xs rule: failures.induct) simp_all

subsection \<open>Executions without a transport failure\<close>

lemma emit_ok:
  assumes "ok_answers r"
  shows "sent_batches (wire (fst (emit c b cls r))) = sent_batches (wire c) @ [b]"
    and "snd (emit c b cls r) = None"
    and "batch (fst (emit c b cls r)) = batch c"
    and "envelopes (fst (emit c b cls r)) = envelopes c"
    and "accepted (fst (emit c b cls r)) = accepted c"
  using assms
  by (auto simp: emit_def ok_answers_def sent_batches_append split: option.splits sum.splits)

lemma flush_ok:
  assumes "ok_answers r"
  shows "sent_batches (wire (fst (flush c b cls r))) = sent_batches (wire c) @ [b]"
    and "snd (flush c b cls r) = None"
    and "batch (fst (flush c b cls r)) = batch c"
    and "envelopes (fst (flush c b cls r)) = envelopes c"
    and "accepted (fst (flush c b cls r)) = accepted c"
  using emit_ok[OF assms, of c b cls]
  by (auto simp: flush_def split: prod.splits option.splits)

lemma step_ok_Continue:
  assumes "ok_answers (answer i)" "conserved c" "startSender_step c i = Continue c1"
  shows "conserved c1"
  using assms
  by (auto simp: startSender_step_def Let_def chan_recv_def conserved_def flush_ok
      timer_Stop_def case_prod_beta
      split: pick.splits list.splits if_splits option.splits bool.splits)

lemma step_ok_Return:
  assumes "ok_answers (answer i)" "conserved c" "startSender_step c i = Return c1 err"
  shows "concat (sent_batches (wire c1)) = accepted c1 \<and> err = None"
  using assms
  by (auto simp: startSender_step_def Let_def chan_recv_def conserved_def flush_ok
      timer_Stop_def case_prod_beta
      split: pick.splits list.splits if_splits option.splits bool.splits)

lemma exec_ok:
  assumes "failure_free as" "conserved c"
  shows "(exec c as = Running c1 \<longrightarrow> conserved c1)
       \<and> (exec c as = Finished c1 err \<longrightarrow> concat (sent_batches (wire c1)) = accepted c1 \<and> err = None)"
  using assms
proof (induction c as rule: exec.induct)
  case (1 c)
  then show ?case by auto
next
  case (2 c e as)
  then show ?case
    by (auto simp: chan_send_def conserved_def split: if_splits)
next
  case (3 c as)
  then show ?case
    by (auto simp: chan_close_def conserved_def split: if_splits)
next
  case (4 c i as)
  then show ?case
    by (cases "startSender_step c i") (auto dest: step_ok_Continue step_ok_Return)
qed

lemma NewIngressClient_Inr:
  fixes c :: "'e IngressClient"
  assumes "NewIngressClient start dial opts = Inr c"
  shows "dial = None"
    and "c = (foldl apply_IngressOption defaults opts)
               \<lparr>tmr := NewTimer start
                  (batchFlushInterval (foldl apply_IngressOption (defaults :: 'e IngressClient) opts))\<rparr>"
  using assms by (auto simp: NewIngressClient_def Let_def split: option.splits)

lemma foldl_options_fixed:
  "sender (foldl apply_IngressOption c opts) = sender c
   \<and> envelopes (foldl apply_IngressOption c opts) = envelopes c
   \<and> batch (foldl apply_IngressOption c opts) = batch c
   \<and> wire (foldl apply_IngressOption c opts) = wire c
   \<and> logged (foldl apply_IngressOption c opts) = logged c
   \<and> accepted (foldl apply_IngressOption c opts) = accepted c"
proof (induction opts arbitrary: c)
  case Nil
  show ?case by simp
next
  case (Cons o1 opts)
  show ?case by (cases o1) (simp_all add: Cons.IH)
qed

lemma NewIngressClient_fresh:
  fixes c :: "'e IngressClient"
  assumes "NewIngressClient start dial opts = Inr c"
  shows "sender c = None" and "envelopes c = \<lparr>buf = [], cap = 100, closed = False\<rparr>"
    and "batch c = []" and "wire c = []" and "logged c = []" and "accepted c = []"
    and "tmr c = NewTimer start (batchFlushInterval c)"
  using NewIngressClient_Inr(2)[OF assms] foldl_options_fixed[of "defaults :: 'e IngressClient" opts]
  by (simp_all add: defaults_def)

subsection \<open>What a flush changes\<close>

lemma emit_fixed:
  "envelopes (fst (emit c b cls r)) = envelopes c"
  "tags (fst (emit c b cls r)) = tags c"
  "batchMaxSize (fst (emit c b cls r)) = batchMaxSize c"
  "batchFlushInterval (fst (emit c b cls r)) = batchFlushInterval c"
  "addr (fst (emit c b cls r)) = addr c"
  "logger (fst (emit c b cls r)) = logger c"
  "tmr (fst (emit c b cls r)) = tmr c"
  "batch (fst (emit c b cls r)) = batch c"
  "logged (fst (emit c b cls r)) = logged c"
  "accepted (fst (emit c b cls r)) = accepted c"
  by (cases "sender c"; cases "on_BatchSender r"; cases "on_Send r"; simp add: emit_def)+

lemma fst_flush:
  "fst (flush c b cls r) =
     (case snd (emit c b cls r) of
        None \<Rightarrow> fst (emit c b cls r)
      | Some err \<Rightarrow> (fst (emit c b cls r))\<lparr>logged := logged c @ [(logger c, err)]\<rparr>)"
  using emit_fixed(6,9)[of c b cls r]
  by (cases "emit c b cls r") (auto simp: flush_def split: option.splits)

lemma snd_flush: "snd (flush c b cls r) = snd (emit c b cls r)"
  by (cases "emit c b cls r") (auto simp: flush_def split: option.splits)

lemma flush_fixed:
  "envelopes (fst (flush c b cls r)) = envelopes c"
  "tags (fst (flush c b cls r)) = tags c"
  "batchMaxSize (fst (flush c b cls r)) = batchMaxSize c"
  "batchFlushInterval (fst (flush c b cls r)) = batchFlushInterval c"
  "addr (fst (flush c b cls r)) = addr c"
  "logger (fst (flush c b cls r)) = logger c"
  "tmr (fst (flush c b cls r)) = tmr c"
  "batch (fst (flush c b cls r)) = batch c"
  "accepted (fst (flush c b cls r)) = accepted c"
  "wire (fst (flush c b cls r)) = wire (fst (emit c b cls r))"
  by (simp_all add: fst_flush emit_fixed split: option.splits)

lemma emit_failures:
  "failures (wire (fst (emit c b cls r))) =
     failures (wire c) @ (case snd (emit c b cls r) of None \<Rightarrow> [] | Some err \<Rightarrow> [err])"
  by (cases "sender c"; cases "on_BatchSender r"; cases "on_Send r"; cases "on_CloseSend r";
      simp add: emit_def failures_append)

lemma flush_reported:
  assumes "reported c"
  shows "reported (fst (flush c b cls r))"
  using assms emit_failures[of c b cls r]
  by (auto simp: reported_def fst_flush emit_fixed split: option.splits)

lemma flush_reported_upd:
  assumes "reported c"
  shows "reported ((fst (flush c b cls r))\<lparr>batch := bs, tmr := tm\<rparr>)"
  using flush_reported[OF assms, of b cls r] by (simp add: reported_def)

subsection \<open>The loop goes on whatever the transport answers\<close>


lemma timer_ok_elapse: "timer_ok tm \<Longrightarrow> timer_ok (timer_elapse t tm)"
  by (simp add: timer_ok_def timer_elapse_def split: option.splits)





subsection \<open>The timer\<close>

lemma emit_grows: "wire (fst (emit c b cls r)) \<noteq> wire c"
  by (cases "sender c"; cases "on_BatchSender r"; cases "on_Send r"; simp add: emit_def)

lemma flush_grows: "wire (fst (flush c b cls r)) \<noteq> wire c"
  by (simp add: flush_fixed emit_grows)

lemma step_timer_ok:
  assumes "timer_ok (tmr c)"
  shows "startSender_step c i \<noteq> Stuck"
    and "startSender_step c i = Continue c1 \<Longrightarrow> timer_ok (tmr c1)"
  using timer_ok_elapse[OF assms, of "now i"]
  by (auto simp: startSender_step_def chan_recv_def Let_def flush_fixed timer_Stop_def
      timer_recv_def timer_Reset_def timer_ok_def case_prod_beta
      split: pick.splits list.splits if_splits option.splits bool.splits)

lemma exec_timer_ok:
  assumes "timer_ok (tmr c)"
  shows "exec c as \<noteq> Deadlocked \<and> (exec c as = Running c1 \<longrightarrow> timer_ok (tmr c1))"
  using assms
proof (induction c as rule: exec.induct)
  case (1 c)
  then show ?case by auto
next
  case (2 c e as)
  then show ?case by (auto simp: chan_send_def)
next
  case (3 c as)
  then show ?case by (auto simp: chan_close_def)
next
  case (4 c i as)
  then show ?case
    using step_timer_ok[OF "4.prems", of i]
    by (cases "startSender_step c i") auto
qed

lemma step_flush_timer:
  assumes "timer_ok (tmr c)" "startSender_step c i = Continue c1" "wire c1 \<noteq> wire c"
  shows "tmr c1 = \<lparr>deadline = Some (now i + batchFlushInterval c), pending = False\<rparr>"
  using assms timer_ok_elapse[OF assms(1), of "now i"]
  by (auto simp: startSender_step_def chan_recv_def Let_def flush_fixed timer_Stop_def
      timer_recv_def timer_Reset_def timer_ok_def case_prod_beta
      split: pick.splits list.splits if_splits option.splits bool.splits)

lemma step_interval:
  "startSender_step c i = Continue c1 \<Longrightarrow> batchFlushInterval c1 = batchFlushInterval c"
  by (auto simp: startSender_step_def chan_recv_def Let_def flush_fixed timer_Stop_def
      timer_recv_def case_prod_beta
      split: pick.splits list.splits if_splits option.splits bool.splits)

lemma step_fires_from:
  assumes "timer_ok (tmr c)" "fires_from (b + batchFlushInterval c) t (tmr c)" "b \<le> now i" "t \<le> now i"
    "pick i = FromEnvelopes" "startSender_step c i = Continue c1"
  shows "fires_from (b + batchFlushInterval c) (now i) (tmr c1)"
  using assms
  by (auto simp: startSender_step_def chan_recv_def Let_def flush_fixed timer_Stop_def
      timer_recv_def timer_Reset_def timer_ok_def case_prod_beta fires_from_def timer_elapse_def
      split: pick.splits list.splits if_splits option.splits bool.splits)


lemma fires_from_later: "fires_from b t tm \<Longrightarrow> t \<le> t1 \<Longrightarrow> fires_from b t1 tm"
  by (auto simp: fires_from_def split: option.splits)

lemma exec_fires_from:
  assumes "timer_ok (tmr c)" "batchFlushInterval c = d" "fires_from (b + d) t (tmr c)" "b \<le> t"
    "sorted (t # times as)" "no_timer as" "exec c as = Running c2"
  shows "fires_from (b + d) (last (t # times as)) (tmr c2)"
  using assms
proof (induction c as arbitrary: t rule: exec.induct)
  case (1 c)
  then show ?case by simp
next
  case (2 c e as)
  then show ?case
    by (cases "chan_send (envelopes c) e") auto
next
  case (3 c as)
  then show ?case
    by (cases "chan_close (envelopes c)") auto
next
  case (4 c i as)
  have le: "t \<le> now i" and srt: "sorted (now i # times as)" and nt: "no_timer as"
    and pk: "pick i = FromEnvelopes"
    using "4.prems"(5,6) by auto
  have bi: "b \<le> now i" using le "4.prems"(4) by simp
  show ?case
  proof (cases "startSender_step c i")
    case (Continue c1)
    have "fires_from (b + d) (now i) (tmr c1)"
      using step_fires_from[OF "4.prems"(1) _ bi le pk Continue] "4.prems"(2,3) by simp
    moreover have "timer_ok (tmr c1)" using step_timer_ok(2)[OF "4.prems"(1) Continue] .
    moreover have "batchFlushInterval c1 = d" using step_interval[OF Continue] "4.prems"(2) by simp
    moreover have "exec c1 as = Running c2" using "4.prems"(7) Continue by simp
    ultimately have "fires_from (b + d) (last (now i # times as)) (tmr c2)"
      using "4.IH"(1)[OF Continue, of "now i"] bi srt nt by blast
    then show ?thesis by simp
  next
    case (Return c1 err)
    with "4.prems"(7) show ?thesis by simp
  next
    case NotReady
    have "fires_from (b + d) (now i) (tmr c)"
      using fires_from_later[OF "4.prems"(3) le] .
    moreover have "exec c as = Running c2" using "4.prems"(7) NotReady by simp
    ultimately have "fires_from (b + d) (last (now i # times as)) (tmr c2)"
      using "4.IH"(2)[OF NotReady, of "now i"] "4.prems"(1,2) bi srt nt by blast
    then show ?thesis by simp
  next
    case Stuck
    with "4.prems"(7) show ?thesis by simp
  qed
qed

lemma timer_ready_after:
  assumes "fires_from b t (tmr c)" "t \<le> now j" "pick j = FromTimer" "startSender_step c j \<noteq> NotReady"
  shows "b \<le> now j"
  using assms
  by (auto simp: startSender_step_def Let_def fires_from_def timer_recv_def timer_elapse_def
      split: option.splits if_splits)

subsection \<open>The calls of one iteration\<close>



lemma emit_send_failure:
  assumes "wire (fst (emit c b cls r)) = wire c @ ops" "Send h b1 (Some err) \<in> set ops"
  shows "sender (fst (emit c b cls r)) = None \<and> sends ops = 1 \<and> b1 = b"
  using assms
  by (cases "sender c"; cases "on_BatchSender r"; cases "on_Send r"; cases cls; auto simp: emit_def)

lemma emit_establishes:
  assumes "sender c = None" "wire (fst (emit c b cls r)) = wire c @ ops"
  shows "\<exists>rest. ops = BatchSender (on_BatchSender r) # rest \<and> establishments rest = 0"
  using assms
  by (cases "on_BatchSender r"; cases "on_Send r"; cases cls; auto simp: emit_def)

lemma sender_flush: "sender (fst (flush c b cls r)) = sender (fst (emit c b cls r))"
  by (simp add: fst_flush split: option.splits)

lemma emit_wire_neq: "length w \<le> length (wire c) \<Longrightarrow> (wire (fst (emit c b cls r)) = w) = False"
  by (cases "sender c"; cases "on_BatchSender r"; cases "on_Send r"; auto simp: emit_def)

lemma emit_longer: "length (wire c) < length (wire (fst (emit c b cls r)))"
  by (cases "sender c"; cases "on_BatchSender r"; cases "on_Send r"; auto simp: emit_def)

lemma step_Continue_quiet:
  assumes "startSender_step c i = Continue c1" "wire c1 = wire c"
  shows "sender c1 = sender c"
  using assms
  by (auto simp: startSender_step_def chan_recv_def Let_def flush_fixed timer_Stop_def
      case_prod_beta emit_wire_neq
      split: pick.splits list.splits if_splits option.splits bool.splits)

lemma step_Continue_flush:
  assumes "startSender_step c i = Continue c1" "wire c1 \<noteq> wire c"
  shows "\<exists>c2 b. wire c2 = wire c \<and> sender c2 = sender c
           \<and> wire c1 = wire (fst (emit c2 b False (answer i)))
           \<and> sender c1 = sender (fst (emit c2 b False (answer i)))
           \<and> batch c1 = []
           \<and> (buf (envelopes c1) = buf (envelopes c) \<or> buf (envelopes c1) = tl (buf (envelopes c)))
           \<and> accepted c1 = accepted c"
proof (cases "pick i")
  case FromEnvelopes
  show ?thesis
  proof (cases "buf (envelopes c)")
    case Nil
    with FromEnvelopes assms show ?thesis
      by (auto simp: startSender_step_def chan_recv_def Let_def flush_fixed case_prod_beta split: if_splits)
  next
    case (Cons env rest)
    let ?c2 = "c\<lparr>tmr := timer_elapse (now i) (tmr c), envelopes := (envelopes c)\<lparr>buf := rest\<rparr>,
                 batch := batch c @ [env]\<rparr>"
    from Cons FromEnvelopes assms show ?thesis
      by (intro exI[of _ ?c2] exI[of _ "batch c @ [env]"])
         (auto simp: startSender_step_def chan_recv_def Let_def flush_fixed timer_Stop_def
          case_prod_beta sender_flush
          split: if_splits option.splits bool.splits)
  qed
next
  case FromTimer
  show ?thesis
  proof (cases "timer_recv (timer_elapse (now i) (tmr c))")
    case None
    with FromTimer assms show ?thesis
      by (simp add: startSender_step_def)
  next
    case (Some tm)
    let ?c2 = "c\<lparr>tmr := tm\<rparr>"
    from Some FromTimer assms show ?thesis
      by (intro exI[of _ ?c2] exI[of _ "batch c"])
         (auto simp: startSender_step_def Let_def flush_fixed sender_flush split: if_splits)
  qed
qed

lemma step_send_failure:
  assumes "startSender_step c i = Continue c1" "wire c1 = wire c @ ops"
    "Send h b (Some err) \<in> set ops"
  shows "sender c1 = None \<and> sends ops = 1 \<and> batch c1 = []
       \<and> (buf (envelopes c1) = buf (envelopes c) \<or> buf (envelopes c1) = tl (buf (envelopes c)))
       \<and> accepted c1 = accepted c"
proof -
  have "wire c1 \<noteq> wire c" using assms(2,3) by auto
  from step_Continue_flush[OF assms(1) this] obtain c2 b2 where c2:
    "wire c2 = wire c" "sender c2 = sender c"
    "wire c1 = wire (fst (emit c2 b2 False (answer i)))"
    "sender c1 = sender (fst (emit c2 b2 False (answer i)))"
    "batch c1 = []"
    "buf (envelopes c1) = buf (envelopes c) \<or> buf (envelopes c1) = tl (buf (envelopes c))"
    "accepted c1 = accepted c"
    by blast
  have "wire (fst (emit c2 b2 False (answer i))) = wire c2 @ ops"
    using c2(1,3) assms(2) by simp
  from emit_send_failure[OF this assms(3)] c2 show ?thesis by simp
qed

lemma step_establishes:
  assumes "startSender_step c i = Continue c1 \<or> startSender_step c i = Return c1 e"
    "sender c = None" "wire c1 = wire c @ ops" "ops \<noteq> []"
  shows "\<exists>rest. ops = BatchSender (on_BatchSender (answer i)) # rest \<and> establishments rest = 0"
  using assms(1)
proof
  assume st: "startSender_step c i = Continue c1"
  have "wire c1 \<noteq> wire c" using assms(3,4) by auto
  from step_Continue_flush[OF st this] obtain c2 b2 where c2:
    "wire c2 = wire c" "sender c2 = sender c"
    "wire c1 = wire (fst (emit c2 b2 False (answer i)))"
    by blast
  have "wire (fst (emit c2 b2 False (answer i))) = wire c2 @ ops"
    using c2(1,3) assms(3) by simp
  from emit_establishes[OF _ this] c2(2) assms(2) show ?thesis by simp
next
  assume st: "startSender_step c i = Return c1 e"
  let ?c2 = "c\<lparr>tmr := timer_elapse (now i) (tmr c)\<rparr>"
  have "wire c1 = wire (fst (emit ?c2 (batch c) True (answer i)))"
    using st
    by (auto simp: startSender_step_def chan_recv_def Let_def flush_fixed timer_Stop_def
      case_prod_beta
      split: pick.splits list.splits if_splits option.splits bool.splits)
  then have "wire (fst (emit ?c2 (batch c) True (answer i))) = wire ?c2 @ ops"
    using assms(3) by simp
  from emit_establishes[OF _ this] assms(2) show ?thesis by simp
qed

lemma exec_quiet:
  assumes "exec c as = Running c1"
  shows "length (wire c) \<le> length (wire c1) \<and> (wire c1 = wire c \<longrightarrow> sender c1 = sender c)"
  using assms
proof (induction c as rule: exec.induct)
  case (1 c)
  then show ?case by auto
next
  case (2 c e as)
  then show ?case by (cases "chan_send (envelopes c) e") auto
next
  case (3 c as)
  then show ?case by (cases "chan_close (envelopes c)") auto
next
  case (4 c i as)
  show ?case
  proof (cases "startSender_step c i")
    case (Continue c2)
    have grow: "wire c2 = wire c \<or> length (wire c) < length (wire c2)"
    proof (cases "wire c2 = wire c")
      case True
      then show ?thesis by simp
    next
      case False
      from step_Continue_flush[OF Continue False] obtain c3 b where
        "wire c3 = wire c" "wire c2 = wire (fst (emit c3 b False (answer i)))" by blast
      then show ?thesis using emit_longer[of c3 b False "answer i"] by simp
    qed
    from "4.IH"(1)[OF Continue] "4.prems" Continue
    have ih: "length (wire c2) \<le> length (wire c1) \<and> (wire c1 = wire c2 \<longrightarrow> sender c1 = sender c2)"
      by simp
    show ?thesis
      using grow ih step_Continue_quiet[OF Continue] by auto
  next
    case (Return c2 err)
    with "4.prems" show ?thesis by simp
  next
    case NotReady
    with 4 show ?thesis by simp
  next
    case Stuck
    with "4.prems" show ?thesis by simp
  qed
qed

subsection \<open>The return of the sender\<close>


lemma step_Return:
  assumes "startSender_step c i = Return c1 err"
  shows "pick i = FromEnvelopes" and "buf (envelopes c) = []" and "closed (envelopes c)"
    and "c1 = fst (flush (c\<lparr>tmr := timer_elapse (now i) (tmr c)\<rparr>) (batch c) True (answer i))"
    and "err = snd (emit (c\<lparr>tmr := timer_elapse (now i) (tmr c)\<rparr>) (batch c) True (answer i))"
  using assms
  by (auto simp: startSender_step_def chan_recv_def Let_def timer_Stop_def snd_flush[symmetric]
      case_prod_beta
      split: pick.splits list.splits if_splits option.splits bool.splits)







lemma NewIngressClient_new_client: "NewIngressClient 0 None opts = Inr (new_client opts)"
  by (simp add: NewIngressClient_def new_client_def Let_def)

subsection \<open>A Send that fails in the final iteration\<close>

lemma emit_send_failure_result:
  assumes "wire (fst (emit c b cls r)) = wire c @ ops" "Send h b1 (Some err) \<in> set ops"
  shows "snd (emit c b cls r) = Some err"
  using assms
  by (cases "sender c"; cases "on_BatchSender r"; cases "on_Send r"; cases cls; auto simp: emit_def)

lemma step_Return_send_failure:
  assumes "startSender_step c i = Return c1 e1" "wire c1 = wire c @ ops"
    "Send h b (Some err) \<in> set ops"
  shows "sender c1 = None \<and> sends ops = 1 \<and> e1 = Some err \<and> b = batch c"
proof -
  let ?c = "c\<lparr>tmr := timer_elapse (now i) (tmr c)\<rparr>"
  have c1: "c1 = fst (flush ?c (batch c) True (answer i))"
    and e1: "e1 = snd (emit ?c (batch c) True (answer i))"
    using step_Return(4,5)[OF assms(1)] by simp_all
  have w: "wire (fst (emit ?c (batch c) True (answer i))) = wire ?c @ ops"
    using c1 assms(2) by (simp add: flush_fixed)
  from emit_send_failure[OF w assms(3)] emit_send_failure_result[OF w assms(3)] c1 e1
  show ?thesis by (simp add: sender_flush)
qed

subsection \<open>The final flush\<close>


lemma sends_append: "sends (xs @ ys) = sends xs + sends ys"
  by (induction xs rule: sends.induct) simp_all







subsection \<open>Below the batch maximum\<close>

text \<open>
  The comparison of the loop is between ints: \<open>int(c.batchMaxSize)\<close> is the maximum itself
  only below \<open>2^63\<close>. There, while fewer envelopes have been accepted than the maximum
  and the timer is not received from, the transport is not called.
\<close>

lemma sint_small: "unat (w :: 64 word) < 2 ^ 63 \<Longrightarrow> sint w = int (unat w)"
proof -
  assume a: "unat w < 2 ^ 63"
  have u: "uint w = int (unat w)" by (rule uint_nat)
  have "int (unat w) < int (2 ^ 63)" using a by (simp only: of_nat_less_iff)
  then have "int (unat w) < 2 ^ 63" by (simp only: of_nat_power of_nat_numeral)
  then have "uint w < 2 ^ 63" by (simp only: u)
  moreover have "- (2 ^ 63) \<le> uint w"
  proof -
    have "- (2 ^ 63) \<le> (0 :: int)" by simp
    also have "0 \<le> uint w" by (rule uint_ge_0)
    finally show ?thesis .
  qed
  ultimately have "signed_take_bit 63 (uint w) = uint w"
    by (rule signed_take_bit_int_eq_self[rotated])
  then have "sint w = uint w" by (simp add: sint_uint)
  then show ?thesis by (simp only: u)
qed


lemma step_accepted:
  "startSender_step c i = Continue c1 \<Longrightarrow>
     accepted c1 = accepted c \<and> batchMaxSize c1 = batchMaxSize c"
  by (auto simp: startSender_step_def chan_recv_def Let_def flush_fixed timer_Stop_def
      case_prod_beta
      split: pick.splits list.splits if_splits option.splits bool.splits)

lemma exec_accepted_mono:
  "exec c as = Running c1 \<Longrightarrow>
     length (accepted c) \<le> length (accepted c1) \<and> batchMaxSize c1 = batchMaxSize c"
proof (induction c as rule: exec.induct)
  case (1 c)
  then show ?case by auto
next
  case (2 c e as)
  then show ?case by (cases "chan_send (envelopes c) e") auto
next
  case (3 c as)
  then show ?case by (cases "chan_close (envelopes c)") auto
next
  case (4 c i as)
  then show ?case
    by (cases "startSender_step c i") (auto dest: step_accepted)
qed

lemma step_below_max:
  assumes "unat (batchMaxSize c) < 2 ^ 63" "pick i = FromEnvelopes"
    "startSender_step c i = Continue c1"
    "length (batch c @ buf (envelopes c)) < unat (batchMaxSize c)"
  shows "wire c1 = wire c \<and> batch c1 @ buf (envelopes c1) = batch c @ buf (envelopes c)"
proof (cases "buf (envelopes c)")
  case Nil
  with assms(2,3) show ?thesis
    by (auto simp: startSender_step_def chan_recv_def Let_def case_prod_beta split: if_splits)
next
  case (Cons env rest)
  have "length (batch c @ [env]) < unat (batchMaxSize c)"
    using assms(4) Cons by simp
  then have "int (length (batch c @ [env])) < int (unat (batchMaxSize c))"
    by (simp only: of_nat_less_iff)
  then have no: "\<not> sint (batchMaxSize c) \<le> int (length (batch c @ [env]))"
    by (simp only: sint_small[OF assms(1)])
  have "startSender_step c i =
          Continue (c\<lparr>tmr := timer_elapse (now i) (tmr c),
                       envelopes := (envelopes c)\<lparr>buf := rest\<rparr>, batch := batch c @ [env]\<rparr>)"
    using assms(2) Cons no by (simp add: startSender_step_def chan_recv_def Let_def)
  with assms(3) Cons show ?thesis by auto
qed

lemma exec_below_max:
  assumes "unat (batchMaxSize c) < 2 ^ 63" "wire c = []"
    "batch c @ buf (envelopes c) = accepted c" "no_timer as" "exec c as = Running c1"
    "length (accepted c1) < unat (batchMaxSize c)"
  shows "wire c1 = []"
  using assms
proof (induction c as rule: exec.induct)
  case (1 c)
  then show ?case by simp
next
  case (2 c e as)
  then show ?case by (auto simp: chan_send_def split: if_splits)
next
  case (3 c as)
  then show ?case by (auto simp: chan_close_def split: if_splits)
next
  case (4 c i as)
  have pk: "pick i = FromEnvelopes" and nt: "no_timer as" using "4.prems"(4) by auto
  show ?case
  proof (cases "startSender_step c i")
    case (Continue c2)
    have run: "exec c2 as = Running c1" using "4.prems"(5) Continue by simp
    have acc: "accepted c2 = accepted c" "batchMaxSize c2 = batchMaxSize c"
      using step_accepted[OF Continue] by simp_all
    have "length (accepted c2) \<le> length (accepted c1)"
      using exec_accepted_mono[OF run] by simp
    then have small: "length (batch c @ buf (envelopes c)) < unat (batchMaxSize c)"
      using "4.prems"(3,6) acc by simp
    from step_below_max[OF "4.prems"(1) pk Continue small]
    have st: "wire c2 = wire c" "batch c2 @ buf (envelopes c2) = batch c @ buf (envelopes c)"
      by simp_all
    show ?thesis
      using "4.IH"(1)[OF Continue] "4.prems"(1,2,3,6) acc st nt run by simp
  next
    case (Return c2 err)
    with "4.prems"(5) show ?thesis by simp
  next
    case NotReady
    with "4.IH"(2)[OF NotReady] "4.prems" nt show ?thesis by simp
  next
    case Stuck
    with "4.prems"(5) show ?thesis by simp
  qed
qed

lemma no_send_below_batch_max:
  fixes c :: "'e IngressClient"
  assumes "NewIngressClient start dial opts = Inr c" and "unat (batchMaxSize c) < 2 ^ 63"
    and "no_timer as" and "exec c as = Running c1"
    and "length (accepted c1) < unat (batchMaxSize c)"
  shows "wire c1 = []"
  using exec_below_max[OF assms(2) _ _ assms(3,4,5)] NewIngressClient_fresh[OF assms(1)]
  by simp

subsection \<open>The tags of an envelope\<close>

lemma foldl_tags_add:
  "foldl (\<lambda>m opt. m ++ option_tags opt) (a ++ b) opts
     = a ++ foldl (\<lambda>m opt. m ++ option_tags opt) b opts"
proof (induction opts arbitrary: b)
  case Nil
  show ?case by simp
next
  case (Cons opt opts)
  from Cons.IH[of "b ++ option_tags opt"] show ?case by simp
qed

lemma apply_option_tags:
  "apply_option opt e = Some e1 \<Longrightarrow> Tags e1 = Tags e ++ option_tags opt"
  by (cases opt) (auto split: message.splits)

lemma apply_options_tags:
  "apply_options opts e = Some e1 \<Longrightarrow> Tags e1 = Tags e ++ per_call_tags opts"
proof (induction opts arbitrary: e)
  case Nil
  then show ?case by (simp add: per_call_tags_def)
next
  case (Cons opt opts)
  then obtain e2 where e2: "apply_option opt e = Some e2" "apply_options opts e2 = Some e1"
    by (auto split: option.splits)
  have "Tags e1 = (Tags e ++ option_tags opt) ++ per_call_tags opts"
    using Cons.IH[OF e2(2)] apply_option_tags[OF e2(1)] by simp
  also have "\<dots> = Tags e ++ per_call_tags (opt # opts)"
    using foldl_tags_add[of "option_tags opt" Map.empty opts]
    by (simp add: per_call_tags_def)
  finally show ?case .
qed

lemma apply_option_counter:
  "apply_option opt e = Some e1 \<Longrightarrow> \<forall>d. opt \<noteq> WithDelta d \<Longrightarrow>
     Message e = Counter n k \<Longrightarrow> Message e1 = Counter n k"
  by (cases opt) auto

lemma apply_options_counter:
  "apply_options opts e = Some e1 \<Longrightarrow> \<forall>d. WithDelta d \<notin> set opts \<Longrightarrow>
     Message e = Counter n k \<Longrightarrow> Message e1 = Counter n k"
proof (induction opts arbitrary: e)
  case Nil
  then show ?case by simp
next
  case (Cons opt opts)
  then obtain e2 where e2: "apply_option opt e = Some e2" "apply_options opts e2 = Some e1"
    by (auto split: option.splits)
  have "Message e2 = Counter n k"
    using apply_option_counter[OF e2(1) _ Cons.prems(3)] Cons.prems(2) by auto
  from Cons.IH[OF e2(2) _ this] Cons.prems(2) show ?case by simp
qed

lemma submit_Sent:
  "submit c built = Sent c1 \<Longrightarrow>
     \<exists>e. built = Some e \<and> buf (envelopes c1) = buf (envelopes c) @ [e]"
  by (auto simp: submit_def chan_send_def split: option.splits if_splits)

subsection \<open>The channel\<close>

text \<open>
  The action \<open>Submit\<close> of an execution is the send that ends the Emit calls: for
  EmitLog, with the envelope that the call builds (and alike for the two others).
\<close>

lemma exec_Submit_submit:
  "exec c (Submit e # as) =
     (case submit c (Some e) of Sent c1 \<Rightarrow> exec c1 as | Blocks \<Rightarrow> exec c as | Panics \<Rightarrow> Panicked)"
  by (simp add: submit_def split: sent.splits)

lemma exec_EmitLog:
  "log_envelope c ts msg opts = Some e \<Longrightarrow>
     exec c (Submit e # as) =
       (case EmitLog c ts msg opts of Sent c1 \<Rightarrow> exec c1 as | Blocks \<Rightarrow> exec c as | Panics \<Rightarrow> Panicked)"
  by (simp only: EmitLog_def exec_Submit_submit)

lemma step_envelopes:
  assumes "startSender_step c i = Continue c1"
  shows "cap (envelopes c1) = cap (envelopes c)
       \<and> length (buf (envelopes c1)) \<le> length (buf (envelopes c))
       \<and> closed (envelopes c1) = closed (envelopes c)"
  using assms
  by (auto simp: startSender_step_def chan_recv_def Let_def flush_fixed timer_Stop_def
      case_prod_beta
      split: pick.splits list.splits if_splits option.splits bool.splits)

lemma step_Return_envelopes:
  assumes "startSender_step c i = Return c1 err"
  shows "envelopes c1 = envelopes c"
  using step_Return(4)[OF assms] by (simp add: flush_fixed)

lemma exec_capacity:
  assumes "length (buf (envelopes c)) \<le> cap (envelopes c)" "exec c as = Running c1"
  shows "cap (envelopes c1) = cap (envelopes c) \<and> length (buf (envelopes c1)) \<le> cap (envelopes c)"
  using assms
proof (induction c as rule: exec.induct)
  case (1 c)
  then show ?case by auto
next
  case (2 c e as)
  then show ?case by (auto simp: chan_send_def split: if_splits)
next
  case (3 c as)
  then show ?case by (auto simp: chan_close_def split: if_splits)
next
  case (4 c i as)
  show ?case
  proof (cases "startSender_step c i")
    case (Continue c2)
    from step_envelopes[OF Continue] "4.prems"(1)
    have "cap (envelopes c2) = cap (envelopes c)" "length (buf (envelopes c2)) \<le> cap (envelopes c2)"
      by simp_all
    with "4.IH"(1)[OF Continue] "4.prems"(2) Continue show ?thesis by simp
  next
    case (Return c2 err)
    with "4.prems"(2) show ?thesis by simp
  next
    case NotReady
    with 4 show ?thesis by simp
  next
    case Stuck
    with "4.prems"(2) show ?thesis by simp
  qed
qed

lemma exec_closed:
  assumes "closed (envelopes c)" "exec c as = Running c1 \<or> exec c as = Finished c1 err"
  shows "closed (envelopes c1)"
  using assms
proof (induction c as rule: exec.induct)
  case (1 c)
  then show ?case by auto
next
  case (2 c e as)
  then show ?case by (auto simp: chan_send_def split: if_splits)
next
  case (3 c as)
  then show ?case by (auto simp: chan_close_def split: if_splits)
next
  case (4 c i as)
  show ?case
  proof (cases "startSender_step c i")
    case (Continue c2)
    from step_envelopes[OF Continue] "4.prems"(1) have "closed (envelopes c2)" by simp
    with "4.IH"(1)[OF Continue] "4.prems"(2) Continue show ?thesis by simp
  next
    case (Return c2 e2)
    with step_Return_envelopes[OF Return] "4.prems" show ?thesis by auto
  next
    case NotReady
    with 4 show ?thesis by simp
  next
    case Stuck
    with "4.prems"(2) show ?thesis by simp
  qed
qed

lemma exec_submits:
  assumes "\<not> closed (envelopes c)" "length (buf (envelopes c)) + n \<le> cap (envelopes c)"
  shows "exec c (replicate n (Submit e) @ as)
           = exec (c\<lparr>envelopes := (envelopes c)\<lparr>buf := buf (envelopes c) @ replicate n e\<rparr>,
                      accepted := accepted c @ replicate n e\<rparr>) as"
  using assms
proof (induction n arbitrary: c)
  case 0
  then show ?case by simp
next
  case (Suc n)
  let ?c = "c\<lparr>envelopes := (envelopes c)\<lparr>buf := buf (envelopes c) @ [e]\<rparr>,
               accepted := accepted c @ [e]\<rparr>"
  have "exec c (replicate (Suc n) (Submit e) @ as) = exec ?c (replicate n (Submit e) @ as)"
    using Suc.prems by (simp add: chan_send_def)
  also have "\<dots> = exec (?c\<lparr>envelopes := (envelopes ?c)\<lparr>buf := buf (envelopes ?c) @ replicate n e\<rparr>,
                      accepted := accepted ?c @ replicate n e\<rparr>) as"
    using Suc.prems by (intro Suc.IH) simp_all
  finally show ?case by simp
qed

subsection \<open>Evaluating the examples\<close>

lemmas eval_defs = NewIngressClient_def defaults_def NewTimer_def startSender_step_def Let_def
  chan_send_def chan_recv_def chan_close_def timer_elapse_def timer_Stop_def timer_recv_def
  timer_Reset_def emit_def flush_def ok_answers_def fine_def CloseSend_def new_client_def

subsection \<open>The two scenarios of the specification\<close>

text \<open>
  A batch maximum of 3 and five records: one flush of the first three by size, two
  records left in the batch; then the shutdown flushes these two and closes the stream.
  The default maximum and one record: nothing is sent before the interval of a second
  has passed, then the timer delivers once and the record is sent alone; the timer,
  reset, does not deliver again at once.
\<close>

lemma scenario_five_records_batch_of_three:
  "calls_of (exec (new_client [WithBatchMaxSize 3] :: nat IngressClient)
      [Submit 1, Submit 2, Submit 3, Submit 4, Submit 5,
       Loop \<lparr>pick = FromEnvelopes, now = 1, answer = fine 1\<rparr>,
       Loop \<lparr>pick = FromEnvelopes, now = 2, answer = fine 1\<rparr>,
       Loop \<lparr>pick = FromEnvelopes, now = 3, answer = fine 1\<rparr>,
       Loop \<lparr>pick = FromEnvelopes, now = 4, answer = fine 1\<rparr>,
       Loop \<lparr>pick = FromEnvelopes, now = 5, answer = fine 1\<rparr>])
     = Some [BatchSender (Inr 1), Send 1 [1, 2, 3] None]
   \<and> calls_of (exec (new_client [WithBatchMaxSize 3] :: nat IngressClient)
      [Submit 1, Submit 2, Submit 3, Submit 4, Submit 5,
       Loop \<lparr>pick = FromEnvelopes, now = 1, answer = fine 1\<rparr>,
       Loop \<lparr>pick = FromEnvelopes, now = 2, answer = fine 1\<rparr>,
       Loop \<lparr>pick = FromEnvelopes, now = 3, answer = fine 1\<rparr>,
       Loop \<lparr>pick = FromEnvelopes, now = 4, answer = fine 1\<rparr>,
       Loop \<lparr>pick = FromEnvelopes, now = 5, answer = fine 1\<rparr>,
       Close,
       Loop \<lparr>pick = FromEnvelopes, now = 6, answer = fine 1\<rparr>])
     = Some [BatchSender (Inr 1), Send 1 [1, 2, 3] None, Send 1 [4, 5] None,
             StreamCloseSend 1 None]"
  by (simp add: eval_defs)

lemma scenario_one_record_then_the_interval:
  "calls_of (exec (new_client [] :: nat IngressClient)
      [Submit 1,
       Loop \<lparr>pick = FromEnvelopes, now = 1, answer = fine 1\<rparr>,
       Loop \<lparr>pick = FromTimer, now = 999999999, answer = fine 1\<rparr>])
     = Some []
   \<and> calls_of (exec (new_client [] :: nat IngressClient)
      [Submit 1,
       Loop \<lparr>pick = FromEnvelopes, now = 1, answer = fine 1\<rparr>,
       Loop \<lparr>pick = FromTimer, now = 999999999, answer = fine 1\<rparr>,
       Loop \<lparr>pick = FromTimer, now = 1000000000, answer = fine 1\<rparr>,
       Loop \<lparr>pick = FromTimer, now = 1000000001, answer = fine 1\<rparr>])
     = Some [BatchSender (Inr 1), Send 1 [1] None]"
  by (simp add: eval_defs)

section \<open>The claims\<close>

text \<open>
  C1. In an execution in which the transport never fails, the sent batches, one after
  the other in the order of the sends, are the records in the order in which the channel
  accepted them: while the client runs, followed by the current batch and by what still
  waits in the channel; once the sender has returned, alone. The dispatcher neither
  reorders, nor drops, nor doubles a record.
\<close>

theorem sent_batches_are_accepted_records:
  fixes c :: "'e IngressClient"
  assumes "NewIngressClient start dial opts = Inr c" and "failure_free as"
  shows "(exec c as = Running c1 \<longrightarrow>
            concat (sent_batches (wire c1)) @ batch c1 @ buf (envelopes c1) = accepted c1)
       \<and> (exec c as = Finished c1 err \<longrightarrow>
            concat (sent_batches (wire c1)) = accepted c1 \<and> err = None)"
proof -
  have "conserved c"
    using NewIngressClient_fresh[OF assms(1)] by (simp add: conserved_def)
  from exec_ok[OF assms(2) this, of c1 err] show ?thesis
    by (simp add: conserved_def)
qed

theorem sent_batches_are_accepted_records_witness:
  "\<exists>c c1. NewIngressClient 0 None [WithBatchMaxSize 2] = Inr (c :: nat IngressClient)
     \<and> failure_free [Submit (1 :: nat), Submit 2, Submit 3,
          Loop \<lparr>pick = FromEnvelopes, now = 1, answer = fine 1\<rparr>,
          Loop \<lparr>pick = FromEnvelopes, now = 2, answer = fine 1\<rparr>,
          Loop \<lparr>pick = FromEnvelopes, now = 3, answer = fine 1\<rparr>,
          Close,
          Loop \<lparr>pick = FromEnvelopes, now = 4, answer = fine 1\<rparr>]
     \<and> exec c [Submit 1, Submit 2, Submit 3,
          Loop \<lparr>pick = FromEnvelopes, now = 1, answer = fine 1\<rparr>,
          Loop \<lparr>pick = FromEnvelopes, now = 2, answer = fine 1\<rparr>,
          Loop \<lparr>pick = FromEnvelopes, now = 3, answer = fine 1\<rparr>,
          Close,
          Loop \<lparr>pick = FromEnvelopes, now = 4, answer = fine 1\<rparr>] = Finished c1 None
     \<and> sent_batches (wire c1) = [[1, 2], [3]]
     \<and> concat (sent_batches (wire c1)) = accepted c1"
proof -
  let ?as = "[Submit 1, Submit 2, Submit 3,
          Loop \<lparr>pick = FromEnvelopes, now = 1, answer = fine 1\<rparr>,
          Loop \<lparr>pick = FromEnvelopes, now = 2, answer = fine 1\<rparr>,
          Loop \<lparr>pick = FromEnvelopes, now = 3, answer = fine 1\<rparr>,
          Close,
          Loop \<lparr>pick = FromEnvelopes, now = 4, answer = fine 1\<rparr>] :: nat action list"
  have "\<exists>c c1. NewIngressClient 0 None [WithBatchMaxSize 2] = Inr (c :: nat IngressClient)
     \<and> exec c ?as = Finished c1 None \<and> sent_batches (wire c1) = [[1, 2], [3]]"
    by (simp add: eval_defs)
  then obtain c c1 where h: "NewIngressClient 0 None [WithBatchMaxSize 2] = Inr (c :: nat IngressClient)"
    "exec c ?as = Finished c1 None" "sent_batches (wire c1) = [[1, 2], [3]]"
    by blast
  have ff: "failure_free ?as"
    by (simp add: ok_answers_def fine_def)
  from sent_batches_are_accepted_records[OF h(1) ff, of c1 None] h(2)
  have "concat (sent_batches (wire c1)) = accepted c1" by simp
  with h ff show ?thesis by blast
qed

text \<open>
  C2. The claim is that fewer records than the batch maximum, with no expiry of the
  timer, cause no send. The loop compares \<open>len(batch) >= int(c.batchMaxSize)\<close>, and the
  conversion of a maximum of \<open>2^63\<close> or more is negative: with WithBatchMaxSize(1<<63),
  one record is submitted and received, and it is sent at once, in a batch of its own.
  (Below \<open>2^63\<close> the claim holds: \<open>no_send_below_batch_max\<close>.)
\<close>

theorem huge_batch_max_flushes_every_record:
  "calls_of (exec (new_client [WithBatchMaxSize 9223372036854775808] :: nat IngressClient)
      [Submit 7, Loop \<lparr>pick = FromEnvelopes, now = 1, answer = fine 1\<rparr>])
     = Some [BatchSender (Inr 1), Send 1 [7] None]
   \<and> (1 :: nat) < unat (9223372036854775808 :: 64 word)"
  by (simp add: eval_defs)

text \<open>
  C3. In any state that a client reaches, an iteration that flushes and goes on (because
  the batch reached its maximum, or because the timer delivered with a batch that is not
  empty: the transport is called, so the trace of calls grows) leaves the timer armed
  for the time of the iteration plus the configured interval, with no value left in its
  channel: a value that the expired timer had put there is taken out before the reset.
  So the next receive from the timer, after any submissions and receptions of envelopes
  in between, happens no earlier than a full interval after the flush, and the old
  expiry does not deliver a second time.
\<close>

theorem flush_restarts_timer:
  fixes c0 :: "'e IngressClient"
  assumes "NewIngressClient start dial opts = Inr c0"
    and "exec c0 pre = Running c"
    and "startSender_step c i = Continue c1" and "wire c1 \<noteq> wire c"
    and "no_timer as" and "exec c1 as = Running c2"
    and "sorted (now i # times as @ [now j])"
    and "pick j = FromTimer" and "startSender_step c2 j \<noteq> NotReady"
  shows "tmr c1 = \<lparr>deadline = Some (now i + batchFlushInterval c), pending = False\<rparr>
       \<and> now i + batchFlushInterval c \<le> now j"
proof -
  have "timer_ok (tmr c0)"
    using NewIngressClient_fresh(7)[OF assms(1)] by (simp add: timer_ok_def NewTimer_def)
  then have ok: "timer_ok (tmr c)"
    using exec_timer_ok[of c0 pre c] assms(2) by simp
  have t1: "tmr c1 = \<lparr>deadline = Some (now i + batchFlushInterval c), pending = False\<rparr>"
    using step_flush_timer[OF ok assms(3,4)] .
  have ok1: "timer_ok (tmr c1)" using step_timer_ok(2)[OF ok assms(3)] .
  have d1: "batchFlushInterval c1 = batchFlushInterval c" using step_interval[OF assms(3)] .
  have ff: "fires_from (now i + batchFlushInterval c) (now i) (tmr c1)"
    by (simp add: t1 fires_from_def)
  have srt: "sorted (now i # times as)" and lst: "last (now i # times as) \<le> now j"
    using assms(7) by (auto simp: sorted_append)
  have "fires_from (now i + batchFlushInterval c) (last (now i # times as)) (tmr c2)"
    using exec_fires_from[OF ok1 d1 ff _ srt assms(5,6)] by simp
  from timer_ready_after[OF this lst assms(8,9)] t1 show ?thesis by simp
qed


theorem flush_restarts_timer_witness:
  "\<exists>c0 c c1 c2.
     NewIngressClient 0 None [WithBatchMaxSize 1, WithBatchFlushInterval 10] = Inr (c0 :: nat IngressClient)
     \<and> exec c0 [Submit 5] = Running c
     \<and> startSender_step c \<lparr>pick = FromEnvelopes, now = 3, answer = fine 1\<rparr> = Continue c1
     \<and> wire c1 \<noteq> wire c
     \<and> no_timer [Submit (6 :: nat)] \<and> exec c1 [Submit 6] = Running c2
     \<and> sorted (now \<lparr>pick = FromEnvelopes, now = 3, answer = fine 1\<rparr> # times [Submit (6 :: nat)]
           @ [now \<lparr>pick = FromTimer, now = 13, answer = fine 1\<rparr>])
     \<and> pick \<lparr>pick = FromTimer, now = 13, answer = fine 1\<rparr> = FromTimer
     \<and> startSender_step c2 \<lparr>pick = FromTimer, now = 13, answer = fine 1\<rparr> \<noteq> NotReady
     \<and> tmr c1 = \<lparr>deadline = Some 13, pending = False\<rparr>
     \<and> batchFlushInterval c = 10"
proof -
  let ?i = "\<lparr>pick = FromEnvelopes, now = 3, answer = fine 1\<rparr>"
  let ?j = "\<lparr>pick = FromTimer, now = 13, answer = fine 1\<rparr>"
  have "\<exists>c0 c c1 c2.
     NewIngressClient 0 None [WithBatchMaxSize 1, WithBatchFlushInterval 10] = Inr (c0 :: nat IngressClient)
     \<and> exec c0 [Submit 5] = Running c
     \<and> startSender_step c ?i = Continue c1
     \<and> wire c1 \<noteq> wire c
     \<and> exec c1 [Submit 6] = Running c2
     \<and> startSender_step c2 ?j \<noteq> NotReady
     \<and> batchFlushInterval c = 10"
    by (simp add: eval_defs)
  then obtain c0 c c1 c2 where h:
    "NewIngressClient 0 None [WithBatchMaxSize 1, WithBatchFlushInterval 10] = Inr (c0 :: nat IngressClient)"
    "exec c0 [Submit 5] = Running c"
    "startSender_step c ?i = Continue c1"
    "wire c1 \<noteq> wire c"
    "exec c1 [Submit 6] = Running c2"
    "startSender_step c2 ?j \<noteq> NotReady"
    "batchFlushInterval c = 10"
    by blast
  have nt: "no_timer [Submit (6 :: nat)]" by simp
  have srt: "sorted (now ?i # times [Submit (6 :: nat)] @ [now ?j])" by simp
  have pk: "pick ?j = FromTimer" by simp
  from flush_restarts_timer[OF h(1,2,3,4) nt h(5) srt pk h(6)] h(7)
  have "tmr c1 = \<lparr>deadline = Some 13, pending = False\<rparr>" by simp
  with h nt srt pk show ?thesis by blast
qed

text \<open>
  C4. When a Send fails, in the final iteration or in one that goes on, the stream
  handle is dropped at once and the failed batch is not sent a second time in that
  iteration; in the final iteration, that error is what the sender returns. In an
  iteration that goes on, the batch is cleared and nothing is put back: the channel has
  lost at most its oldest envelope and has accepted nothing. At the next iteration that
  calls the transport, whatever was submitted or received in between without a flush,
  the first call is BatchSender, and it is the only BatchSender call of that iteration:
  the stream is opened once, before any Send.
\<close>

theorem send_failure_drops_stream_and_batch:
  assumes "wire c1 = wire c @ ops" and "Send h b (Some err) \<in> set ops"
  shows "(startSender_step c i = Return c1 e1 \<longrightarrow>
            sender c1 = None \<and> sends ops = 1 \<and> e1 = Some err)
       \<and> (startSender_step c i = Continue c1 \<longrightarrow>
            sender c1 = None \<and> sends ops = 1 \<and> batch c1 = []
            \<and> (buf (envelopes c1) = buf (envelopes c) \<or> buf (envelopes c1) = tl (buf (envelopes c)))
            \<and> accepted c1 = accepted c
            \<and> (\<forall>as c2 j c3 e3 ops3.
                  exec c1 as = Running c2 \<and> wire c2 = wire c1
                  \<and> (startSender_step c2 j = Continue c3 \<or> startSender_step c2 j = Return c3 e3)
                  \<and> wire c3 = wire c2 @ ops3 \<and> ops3 \<noteq> [] \<longrightarrow>
                  (\<exists>rest. ops3 = BatchSender (on_BatchSender (answer j)) # rest
                     \<and> establishments rest = 0)))"
proof (intro conjI impI allI)
  assume r: "startSender_step c i = Return c1 e1"
  from step_Return_send_failure[OF r assms]
  show "sender c1 = None" "sends ops = 1" "e1 = Some err" by simp_all
next
  assume st: "startSender_step c i = Continue c1"
  from step_send_failure[OF st assms]
  show "sender c1 = None" "sends ops = 1" "batch c1 = []"
    "buf (envelopes c1) = buf (envelopes c) \<or> buf (envelopes c1) = tl (buf (envelopes c))"
    "accepted c1 = accepted c" by simp_all
next
  fix as c2 j c3 e3 ops3
  assume st: "startSender_step c i = Continue c1"
  assume n: "exec c1 as = Running c2 \<and> wire c2 = wire c1
      \<and> (startSender_step c2 j = Continue c3 \<or> startSender_step c2 j = Return c3 e3)
      \<and> wire c3 = wire c2 @ ops3 \<and> ops3 \<noteq> []"
  have "sender c1 = None" using step_send_failure[OF st assms] by simp
  then have "sender c2 = None" using exec_quiet[of c1 as c2] n by simp
  from step_establishes[OF _ this, of j c3 e3 ops3] n
  show "\<exists>rest. ops3 = BatchSender (on_BatchSender (answer j)) # rest \<and> establishments rest = 0"
    by blast
qed


theorem send_failure_drops_stream_and_batch_witness:
  "\<exists>c c1 c2 c3 d d1.
     exec (new_client [WithBatchMaxSize 1] :: nat IngressClient) [Submit 5] = Running c
     \<and> startSender_step c \<lparr>pick = FromEnvelopes, now = 1,
          answer = \<lparr>on_BatchSender = Inr 1, on_Send = Some ''broken'', on_CloseSend = None\<rparr>\<rparr>
         = Continue c1
     \<and> wire c1 = wire c @ [BatchSender (Inr 1), Send 1 [5] (Some ''broken'')]
     \<and> Send 1 [5] (Some ''broken'') \<in> set [BatchSender (Inr 1), Send 1 [5 :: nat] (Some ''broken'')]
     \<and> sender c1 = None \<and> batch c1 = [] \<and> buf (envelopes c1) = []
     \<and> exec c1 [Submit 6] = Running c2 \<and> wire c2 = wire c1
     \<and> startSender_step c2 \<lparr>pick = FromEnvelopes, now = 2, answer = fine 2\<rparr> = Continue c3
     \<and> wire c3 = wire c2 @ [BatchSender (Inr 2), Send 2 [6] None]
     \<and> (\<exists>rest. [BatchSender (Inr 2), Send 2 [6 :: nat] None]
            = BatchSender (on_BatchSender (answer \<lparr>pick = FromEnvelopes, now = 2, answer = fine 2\<rparr>)) # rest
          \<and> establishments rest = 0)
     \<and> exec (new_client [] :: nat IngressClient) [Close] = Running d
     \<and> startSender_step d \<lparr>pick = FromEnvelopes, now = 1,
          answer = \<lparr>on_BatchSender = Inr 1, on_Send = Some ''broken'', on_CloseSend = None\<rparr>\<rparr>
         = Return d1 (Some ''broken'')
     \<and> wire d1 = wire d @ [BatchSender (Inr 1), Send 1 [] (Some ''broken'')]
     \<and> sender d1 = None"
proof -
  let ?i = "\<lparr>pick = FromEnvelopes, now = 1,
          answer = \<lparr>on_BatchSender = Inr 1, on_Send = Some ''broken'', on_CloseSend = None\<rparr>\<rparr>"
  let ?j = "\<lparr>pick = FromEnvelopes, now = 2, answer = fine 2\<rparr>"
  let ?ops = "[BatchSender (Inr 1), Send 1 [5 :: nat] (Some ''broken'')]"
  let ?ops3 = "[BatchSender (Inr 2), Send 2 [6 :: nat] None]"
  let ?opsd = "[BatchSender (Inr 1), Send 1 ([] :: nat list) (Some ''broken'')]"
  have "\<exists>c c1 c2 c3 d d1.
     exec (new_client [WithBatchMaxSize 1] :: nat IngressClient) [Submit 5] = Running c
     \<and> startSender_step c ?i = Continue c1
     \<and> wire c1 = wire c @ ?ops
     \<and> buf (envelopes c1) = []
     \<and> exec c1 [Submit 6] = Running c2 \<and> wire c2 = wire c1
     \<and> startSender_step c2 ?j = Continue c3
     \<and> wire c3 = wire c2 @ ?ops3
     \<and> exec (new_client [] :: nat IngressClient) [Close] = Running d
     \<and> startSender_step d ?i = Return d1 (Some ''broken'')
     \<and> wire d1 = wire d @ ?opsd"
    by (simp add: eval_defs)
  then obtain c c1 c2 c3 d d1 where h:
    "exec (new_client [WithBatchMaxSize 1] :: nat IngressClient) [Submit 5] = Running c"
    "startSender_step c ?i = Continue c1"
    "wire c1 = wire c @ ?ops"
    "buf (envelopes c1) = []"
    "exec c1 [Submit 6] = Running c2" "wire c2 = wire c1"
    "startSender_step c2 ?j = Continue c3"
    "wire c3 = wire c2 @ ?ops3"
    "exec (new_client [] :: nat IngressClient) [Close] = Running d"
    "startSender_step d ?i = Return d1 (Some ''broken'')"
    "wire d1 = wire d @ ?opsd"
    by blast
  have m: "Send 1 [5] (Some ''broken'') \<in> set ?ops" by simp
  have md: "Send 1 [] (Some ''broken'') \<in> set ?opsd" by simp
  note t = send_failure_drops_stream_and_batch[OF h(3) m, where i = ?i]
  from t h(2) have a: "sender c1 = None \<and> batch c1 = []" by blast
  have ne: "?ops3 \<noteq> []" by simp
  from t h(2,5,6,7,8) ne
  have b: "\<exists>rest. ?ops3 = BatchSender (on_BatchSender (answer ?j)) # rest \<and> establishments rest = 0"
    by blast
  from send_failure_drops_stream_and_batch[OF h(11) md, where i = ?i] h(10)
  have c: "sender d1 = None" by blast
  from h m a b c show ?thesis by blast
qed









text \<open>
  C8, as the code has it. The channel of a client has room for 100 envelopes, whatever
  the options given to NewIngressClient, and never holds more. When it holds 100 and is
  open, the send that ends EmitLog, EmitGauge and EmitCounter blocks: the envelope is
  not dropped, and as soon as the sender has received one envelope the same send is
  accepted, the envelope going to the end of the channel.
\<close>

theorem queue_capacity_fixed_at_100:
  fixes c0 :: "envelope IngressClient"
  assumes "NewIngressClient start dial opts = Inr c0" and "exec c0 as = Running c"
  shows "cap (envelopes c) = 100 \<and> length (buf (envelopes c)) \<le> 100
       \<and> (length (buf (envelopes c)) = 100 \<and> \<not> closed (envelopes c) \<longrightarrow>
            submit c (Some e) = Blocks
            \<and> (\<forall>i c1. pick i = FromEnvelopes \<and> startSender_step c i = Continue c1 \<longrightarrow>
                  (\<exists>c2. submit c1 (Some e) = Sent c2
                     \<and> buf (envelopes c2) = buf (envelopes c1) @ [e]
                     \<and> accepted c2 = accepted c1 @ [e])))"
proof -
  have f: "cap (envelopes c0) = 100" "buf (envelopes c0) = []"
    using NewIngressClient_fresh(2)[OF assms(1)] by simp_all
  from exec_capacity[OF _ assms(2)] f
  have a: "cap (envelopes c) = 100" "length (buf (envelopes c)) \<le> 100" by simp_all
  have b: "submit c (Some e) = Blocks"
    if "length (buf (envelopes c)) = 100 \<and> \<not> closed (envelopes c)"
    using that a by (simp add: submit_def chan_send_def)
  have d: "\<exists>c2. submit c1 (Some e) = Sent c2 \<and> buf (envelopes c2) = buf (envelopes c1) @ [e]
             \<and> accepted c2 = accepted c1 @ [e]"
    if "length (buf (envelopes c)) = 100 \<and> \<not> closed (envelopes c)"
      and "pick i = FromEnvelopes \<and> startSender_step c i = Continue c1" for i c1
  proof -
    from that have "buf (envelopes c) \<noteq> []" by auto
    then obtain env rest where er: "buf (envelopes c) = env # rest"
      by (cases "buf (envelopes c)") auto
    have "buf (envelopes c1) = rest \<and> cap (envelopes c1) = 100 \<and> \<not> closed (envelopes c1)"
      using that er a(1)
      by (auto simp: startSender_step_def chan_recv_def Let_def flush_fixed timer_Stop_def
          case_prod_beta split: if_splits option.splits bool.splits)
    with that er show ?thesis
      by (simp add: submit_def chan_send_def)
  qed
  from a b d show ?thesis by blast
qed

theorem queue_capacity_fixed_at_100_witness:
  "\<exists>c c1 c2.
     NewIngressClient 0 None [] = Inr (new_client [] :: envelope IngressClient)
     \<and> exec (new_client []) (replicate 100 (Submit sample)) = Running c
     \<and> cap (envelopes c) = 100 \<and> length (buf (envelopes c)) = 100 \<and> \<not> closed (envelopes c)
     \<and> submit c (Some sample) = Blocks
     \<and> pick \<lparr>pick = FromEnvelopes, now = 1, answer = fine 1\<rparr> = FromEnvelopes
     \<and> startSender_step c \<lparr>pick = FromEnvelopes, now = 1, answer = fine 1\<rparr> = Continue c1
     \<and> submit c1 (Some sample) = Sent c2
     \<and> buf (envelopes c2) = buf (envelopes c1) @ [sample]"
proof -
  let ?c0 = "new_client [] :: envelope IngressClient"
  let ?i = "\<lparr>pick = FromEnvelopes, now = 1, answer = fine 1\<rparr>"
  define c where "c = ?c0\<lparr>envelopes := (envelopes ?c0)\<lparr>buf := buf (envelopes ?c0) @ replicate 100 sample\<rparr>,
                      accepted := accepted ?c0 @ replicate 100 sample\<rparr>"
  have n: "NewIngressClient 0 None [] = Inr ?c0" by (rule NewIngressClient_new_client)
  have "exec ?c0 (replicate 100 (Submit sample) @ []) = exec c []"
    unfolding c_def by (rule exec_submits) (simp_all add: eval_defs)
  then have run: "exec ?c0 (replicate 100 (Submit sample)) = Running c" by simp
  have full: "length (buf (envelopes c)) = 100 \<and> \<not> closed (envelopes c)"
    by (simp add: c_def eval_defs)
  have r: "replicate 100 sample = sample # replicate 99 sample"
    using replicate_Suc[of 99 sample] by simp
  have "\<exists>c1. startSender_step c ?i = Continue c1"
    by (simp add: c_def eval_defs r)
  then obtain c1 where st: "startSender_step c ?i = Continue c1" by blast
  note t = queue_capacity_fixed_at_100[OF n run, of sample]
  from t have cp: "cap (envelopes c) = 100" by simp
  from t full have bl: "submit c (Some sample) = Blocks" by blast
  have pk: "pick ?i = FromEnvelopes" by simp
  from t full pk st obtain c2 where c2: "submit c1 (Some sample) = Sent c2"
    "buf (envelopes c2) = buf (envelopes c1) @ [sample]" by blast
  from n run cp full bl pk st c2 show ?thesis by blast
qed

text \<open>
  C8 as it was stated makes the capacity configurable. No option reaches it: every
  client that NewIngressClient returns has a channel of capacity 100.
\<close>

theorem queue_capacity_not_configurable:
  "\<not> (\<exists>start dial opts (c :: envelope IngressClient).
        NewIngressClient start dial opts = Inr c \<and> cap (envelopes c) \<noteq> 100)"
  using NewIngressClient_fresh(2) by fastforce

text \<open>
  C9. The envelope that EmitLog, EmitGauge or EmitCounter puts into the channel has the
  tags of the client, overridden by the tags of the options of the call, a later option
  winning over an earlier one; and the envelope of EmitCounter, when no option of the
  call is WithDelta, is a counter of delta 1.
\<close>

theorem emitted_tags_static_then_per_call:
  "(EmitLog c ts msg opts = Sent c1 \<longrightarrow>
      (\<exists>e. buf (envelopes c1) = buf (envelopes c) @ [e] \<and> Tags e = tags c ++ per_call_tags opts))
   \<and> (EmitGauge c ts opts = Sent c1 \<longrightarrow>
      (\<exists>e. buf (envelopes c1) = buf (envelopes c) @ [e] \<and> Tags e = tags c ++ per_call_tags opts))
   \<and> (EmitCounter c ts name opts = Sent c1 \<longrightarrow>
      (\<exists>e. buf (envelopes c1) = buf (envelopes c) @ [e] \<and> Tags e = tags c ++ per_call_tags opts
         \<and> ((\<forall>d. WithDelta d \<notin> set opts) \<longrightarrow> Message e = Counter name 1)))"
proof (intro conjI impI)
  assume "EmitLog c ts msg opts = Sent c1"
  from submit_Sent[OF this[unfolded EmitLog_def]] obtain e where
    e: "log_envelope c ts msg opts = Some e" "buf (envelopes c1) = buf (envelopes c) @ [e]"
    by blast
  from apply_options_tags[OF e(1)[unfolded log_envelope_def]] e(2)
  show "\<exists>e. buf (envelopes c1) = buf (envelopes c) @ [e] \<and> Tags e = tags c ++ per_call_tags opts"
    by auto
next
  assume "EmitGauge c ts opts = Sent c1"
  from submit_Sent[OF this[unfolded EmitGauge_def]] obtain e where
    e: "gauge_envelope c ts opts = Some e" "buf (envelopes c1) = buf (envelopes c) @ [e]"
    by blast
  from apply_options_tags[OF e(1)[unfolded gauge_envelope_def]] e(2)
  show "\<exists>e. buf (envelopes c1) = buf (envelopes c) @ [e] \<and> Tags e = tags c ++ per_call_tags opts"
    by auto
next
  assume "EmitCounter c ts name opts = Sent c1"
  from submit_Sent[OF this[unfolded EmitCounter_def]] obtain e where
    e: "counter_envelope c ts name opts = Some e" "buf (envelopes c1) = buf (envelopes c) @ [e]"
    by blast
  have t: "Tags e = tags c ++ per_call_tags opts"
    using apply_options_tags[OF e(1)[unfolded counter_envelope_def]] by simp
  have m: "(\<forall>d. WithDelta d \<notin> set opts) \<longrightarrow> Message e = Counter name 1"
    using apply_options_counter[OF e(1)[unfolded counter_envelope_def], of name 1] by simp
  from e(2) t m
  show "\<exists>e. buf (envelopes c1) = buf (envelopes c) @ [e] \<and> Tags e = tags c ++ per_call_tags opts
         \<and> ((\<forall>d. WithDelta d \<notin> set opts) \<longrightarrow> Message e = Counter name 1)"
    by blast
qed


theorem emitted_tags_static_then_per_call_witness:
  "\<exists>c1 c2 c3 e1 e2 e3.
     EmitLog (new_client [WithTag ''k'' ''static'']) 5 ''hello'' [WithEnvelopeTag ''k'' ''call''] = Sent c1
     \<and> buf (envelopes c1) = buf (envelopes (new_client [WithTag ''k'' ''static''] :: envelope IngressClient)) @ [e1]
     \<and> Tags e1 = tags (new_client [WithTag ''k'' ''static''] :: envelope IngressClient)
                    ++ per_call_tags [WithEnvelopeTag ''k'' ''call'']
     \<and> tags (new_client [WithTag ''k'' ''static''] :: envelope IngressClient) ''k'' = Some ''static''
     \<and> Tags e1 ''k'' = Some ''call''
     \<and> EmitGauge (new_client [WithTag ''k'' ''static'']) 5 [WithEnvelopeTag ''k'' ''call''] = Sent c2
     \<and> buf (envelopes c2) = buf (envelopes (new_client [WithTag ''k'' ''static''] :: envelope IngressClient)) @ [e2]
     \<and> Tags e2 ''k'' = Some ''call''
     \<and> EmitCounter (new_client [WithTag ''k'' ''static'']) 5 ''n'' [WithEnvelopeTag ''k'' ''call''] = Sent c3
     \<and> buf (envelopes c3) = buf (envelopes (new_client [WithTag ''k'' ''static''] :: envelope IngressClient)) @ [e3]
     \<and> Tags e3 ''k'' = Some ''call''
     \<and> (\<forall>d. WithDelta d \<notin> set [WithEnvelopeTag ''k'' ''call''])
     \<and> Message e3 = Counter ''n'' 1"
proof -
  let ?c = "new_client [WithTag ''k'' ''static''] :: envelope IngressClient"
  let ?os = "[WithEnvelopeTag ''k'' ''call'']"
  have "\<exists>c1 c2 c3. EmitLog ?c 5 ''hello'' ?os = Sent c1 \<and> EmitGauge ?c 5 ?os = Sent c2
          \<and> EmitCounter ?c 5 ''n'' ?os = Sent c3"
    by (simp add: EmitLog_def EmitGauge_def EmitCounter_def submit_def log_envelope_def
        gauge_envelope_def counter_envelope_def eval_defs)
  then obtain c1 c2 c3 where h: "EmitLog ?c 5 ''hello'' ?os = Sent c1"
    "EmitGauge ?c 5 ?os = Sent c2" "EmitCounter ?c 5 ''n'' ?os = Sent c3" by blast
  have st: "tags ?c ''k'' = Some ''static''" by (simp add: eval_defs)
  have pc: "per_call_tags ?os ''k'' = Some ''call''" by (simp add: per_call_tags_def)
  have nd: "\<forall>d. WithDelta d \<notin> set ?os" by simp
  from emitted_tags_static_then_per_call[of ?c 5 "''hello''" ?os c1] h(1)
  obtain e1 where e1: "buf (envelopes c1) = buf (envelopes ?c) @ [e1]"
    "Tags e1 = tags ?c ++ per_call_tags ?os" by blast
  from emitted_tags_static_then_per_call[of ?c 5 _ ?os c2] h(2)
  obtain e2 where e2: "buf (envelopes c2) = buf (envelopes ?c) @ [e2]"
    "Tags e2 = tags ?c ++ per_call_tags ?os" by blast
  from emitted_tags_static_then_per_call[of ?c 5 _ ?os c3 "''n''"] h(3) nd
  obtain e3 where e3: "buf (envelopes c3) = buf (envelopes ?c) @ [e3]"
    "Tags e3 = tags ?c ++ per_call_tags ?os" "Message e3 = Counter ''n'' 1" by blast
  have k: "Tags e1 ''k'' = Some ''call''" "Tags e2 ''k'' = Some ''call''"
    "Tags e3 ''k'' = Some ''call''"
    using e1(2) e2(2) e3(2) pc by (simp_all add: map_add_def)
  from h st nd e1 e2 e3(1,3) k show ?thesis by blast
qed

text \<open>
  C10. Once CloseSend has been called, whether it has returned or still waits, every
  call of EmitLog, EmitGauge or EmitCounter panics, whatever its arguments, and so does
  a second call of CloseSend.
\<close>

theorem after_CloseSend_calls_panic:
  assumes "CloseSend c as = Running c1 \<or> CloseSend c as = Finished c1 err"
  shows "EmitLog c1 ts msg opts = Panics \<and> EmitGauge c1 ts opts = Panics
       \<and> EmitCounter c1 ts name opts = Panics \<and> CloseSend c1 as1 = Panicked"
proof -
  from assms obtain ch where ch: "chan_close (envelopes c) = Some ch"
    "exec (c\<lparr>envelopes := ch\<rparr>) as = Running c1 \<or> exec (c\<lparr>envelopes := ch\<rparr>) as = Finished c1 err"
    by (auto simp: CloseSend_def split: option.splits)
  have "closed (envelopes (c\<lparr>envelopes := ch\<rparr>))"
    using ch(1) by (auto simp: chan_close_def split: if_splits)
  from exec_closed[OF this ch(2)] have cl: "closed (envelopes c1)" .
  have s: "submit c1 built = Panics" for built
    using cl by (simp add: submit_def chan_send_def split: option.splits)
  show ?thesis
    using s cl by (simp add: EmitLog_def EmitGauge_def EmitCounter_def CloseSend_def chan_close_def)
qed

theorem after_CloseSend_calls_panic_witness:
  "\<exists>c1. CloseSend (new_client [] :: envelope IngressClient)
           [Loop \<lparr>pick = FromEnvelopes, now = 1, answer = fine 1\<rparr>] = Finished c1 None
     \<and> EmitLog c1 5 ''late'' [] = Panics \<and> EmitGauge c1 5 [] = Panics
     \<and> EmitCounter c1 5 ''n'' [] = Panics \<and> CloseSend c1 [] = Panicked"
proof -
  let ?c = "new_client [] :: envelope IngressClient"
  let ?as = "[Loop \<lparr>pick = FromEnvelopes, now = 1, answer = fine 1\<rparr>] :: envelope action list"
  have "\<exists>c1. CloseSend ?c ?as = Finished c1 None"
    by (simp add: eval_defs)
  then obtain c1 where h: "CloseSend ?c ?as = Finished c1 None" by blast
  then have "CloseSend ?c ?as = Running c1 \<or> CloseSend ?c ?as = Finished c1 None" by simp
  from after_CloseSend_calls_panic[OF this, of 5 "''late''" "[]" "''n''" "[]"] h
  show ?thesis by blast
qed

end
